theory Spec2Isabelle
  imports Main "HOL-Library.Word"
begin

section \<open>The USD ASCII parser: data model of \<open>ascii-parser.hh\<close>\<close>

text \<open>
  The header \<open>src/tinyusdz/src/ascii-parser.hh\<close> declares the class \<open>AsciiParser\<close>.
  The member functions whose bodies are written in the header (the diagnostic stacks, the
  load-state queries, the path stack and \<open>VariableDef\<close>) are embedded from that code.
  A C++ \<open>std::stack\<close> is a list whose head is the top of the stack.
\<close>

type_synonym c_int = "32 word"
type_synonym int64_t = "64 word"
type_synonym uint64_t = "64 word"
type_synonym int32_t = "32 word"

text \<open>\<open>enum class LoadState\<close>.\<close>

datatype LoadState = TOPLEVEL | SUBLAYER | REFERENCE | PAYLOAD

text \<open>\<open>struct ParseState { int64_t loc{-1}; }\<close>: byte location in the stream reader.\<close>

record ParseState =
  loc :: int64_t

definition ParseState_init :: ParseState where
  "ParseState_init = \<lparr>loc = - 1\<rparr>"

text \<open>\<open>struct Cursor { int row{0}; int col{0}; }\<close>.\<close>

record Cursor =
  row :: c_int
  col :: c_int

definition Cursor_init :: Cursor where
  "Cursor_init = \<lparr>row = 0, col = 0\<rparr>"

text \<open>\<open>struct ErrorDiagnositc { std::string err; Cursor cursor; }\<close>.\<close>

record ErrorDiagnositc =
  err :: string
  cursor :: Cursor

definition ErrorDiagnositc_init :: ErrorDiagnositc where
  "ErrorDiagnositc_init = \<lparr>err = [], cursor = Cursor_init\<rparr>"

text \<open>
  Modelled from the spec: the stream collaborator \<open>StreamReader\<close> (\<open>stream-reader.hh\<close> is
  not part of the sources). The spec gives it byte-level peek, read, seek, end-of-stream
  and current-offset over a byte buffer; it is the buffer and the current offset.
\<close>

record StreamReader =
  binary :: string
  idx :: nat

text \<open>
  The data members of \<open>AsciiParser\<close> that the embedded operations read or write. The
  other members (the registries of supported types and metadata, the callbacks,
  \<open>_version\<close> and \<open>_stage_metas\<close>) are touched by none of them: they are the
  extension of the record, and every operation is defined on the parser with any
  extension \<open>'s\<close>.
\<close>

record AsciiParser =
  sr :: StreamReader
  path_stack :: "string list"
  curr_cursor :: Cursor
  err_stack :: "ErrorDiagnositc list"
  warn_stack :: "ErrorDiagnositc list"
  parse_stack :: "ParseState list"
  sub_layered :: bool
  referenced :: bool
  payloaded :: bool
  base_dir :: string

type_synonym 's parser = "'s AsciiParser_scheme"

section \<open>Diagnostics\<close>

text \<open>
  \<open>void PushError(const std::string &msg)\<close>: a default-constructed diagnostic receives the
  row and the column of the current cursor and the message, and is pushed.
\<close>

definition PushError :: "string \<Rightarrow> 's parser \<Rightarrow> 's parser" where
  "PushError msg p =
     (let diag = ErrorDiagnositc_init;
          diag = diag\<lparr>cursor := (cursor diag)\<lparr>row := row (curr_cursor p)\<rparr>\<rparr>;
          diag = diag\<lparr>cursor := (cursor diag)\<lparr>col := col (curr_cursor p)\<rparr>\<rparr>;
          diag = diag\<lparr>err := msg\<rparr>
      in p\<lparr>err_stack := diag # err_stack p\<rparr>)"

text \<open>\<open>void PopError()\<close>: cancels the most recent parsing error.\<close>

definition PopError :: "'s parser \<Rightarrow> 's parser" where
  "PopError p = (if err_stack p \<noteq> [] then p\<lparr>err_stack := tl (err_stack p)\<rparr> else p)"

text \<open>\<open>void PushWarn(const std::string &msg)\<close>.\<close>

definition PushWarn :: "string \<Rightarrow> 's parser \<Rightarrow> 's parser" where
  "PushWarn msg p =
     (let diag = ErrorDiagnositc_init;
          diag = diag\<lparr>cursor := (cursor diag)\<lparr>row := row (curr_cursor p)\<rparr>\<rparr>;
          diag = diag\<lparr>cursor := (cursor diag)\<lparr>col := col (curr_cursor p)\<rparr>\<rparr>;
          diag = diag\<lparr>err := msg\<rparr>
      in p\<lparr>warn_stack := diag # warn_stack p\<rparr>)"

text \<open>\<open>void PopWarn()\<close>: cancels the most recent parsing warning.\<close>

definition PopWarn :: "'s parser \<Rightarrow> 's parser" where
  "PopWarn p = (if warn_stack p \<noteq> [] then p\<lparr>warn_stack := tl (warn_stack p)\<rparr> else p)"

section \<open>Load-state queries\<close>

definition IsReferenced :: "'s parser \<Rightarrow> bool" where
  "IsReferenced p = referenced p"

definition IsSubLayered :: "'s parser \<Rightarrow> bool" where
  "IsSubLayered p = sub_layered p"

definition IsPayloaded :: "'s parser \<Rightarrow> bool" where
  "IsPayloaded p = payloaded p"

definition IsToplevel :: "'s parser \<Rightarrow> bool" where
  "IsToplevel p = (\<not> IsReferenced p \<and> \<not> IsSubLayered p \<and> \<not> IsPayloaded p)"

section \<open>Path stack\<close>

text \<open>
  \<open>bool PathStackDepth() { return _path_stack.size(); }\<close>: the element count is converted
  to \<open>bool\<close>, which is true exactly for a count other than zero.
\<close>

definition PathStackDepth :: "'s parser \<Rightarrow> bool" where
  "PathStackDepth p = (length (path_stack p) \<noteq> 0)"

definition PushPath :: "string \<Rightarrow> 's parser \<Rightarrow> 's parser" where
  "PushPath q p = p\<lparr>path_stack := q # path_stack p\<rparr>"

definition PopPath :: "'s parser \<Rightarrow> 's parser" where
  "PopPath p = (if path_stack p \<noteq> [] then p\<lparr>path_stack := tl (path_stack p)\<rparr> else p)"

section \<open>Metadata schema entries\<close>

text \<open>
  \<open>PostParseHandler\<close> is a \<open>std::function\<close> from a string to
  \<open>nonstd::expected<bool, std::string>\<close>: the expected value is \<open>Inr\<close>, the error message
  \<open>Inl\<close>. A \<open>std::function\<close> may be empty (\<open>None\<close>), and calling an empty one throws
  \<open>std::bad_function_call\<close>.
\<close>

type_synonym PostParseHandler = "string \<Rightarrow> string + bool"

definition DefaultPostParseHandler :: PostParseHandler where
  "DefaultPostParseHandler s = Inr True"

record VariableDef =
  type :: string
  name :: string
  allow_array_type :: bool
  post_parse_handler :: "PostParseHandler option"

text \<open>\<open>VariableDef() = default\<close>: the members keep their default initialisers.\<close>

definition VariableDef_default :: VariableDef where
  "VariableDef_default =
     \<lparr>type = [], name = [], allow_array_type = False, post_parse_handler = None\<rparr>"

text \<open>
  \<open>VariableDef(const std::string &t, const std::string &n, bool a = false,
  PostParseHandler ph = DefaultPostParseHandler)\<close>: an argument left out (\<open>None\<close>) takes its
  default.
\<close>

definition VariableDef_ctor ::
  "string \<Rightarrow> string \<Rightarrow> bool option \<Rightarrow> PostParseHandler option \<Rightarrow> VariableDef" where
  "VariableDef_ctor t n a ph =
     \<lparr>type = t, name = n,
      allow_array_type = (case a of None \<Rightarrow> False | Some b \<Rightarrow> b),
      post_parse_handler = Some (case ph of None \<Rightarrow> DefaultPostParseHandler | Some h \<Rightarrow> h)\<rparr>"

datatype call_error = bad_function_call

text \<open>Calling the validator of a schema entry on a decoded value.\<close>

definition call_post_parse_handler :: "VariableDef \<Rightarrow> string \<Rightarrow> call_error + (string + bool)" where
  "call_post_parse_handler d s =
     (case post_parse_handler d of None \<Rightarrow> Inl bad_function_call | Some h \<Rightarrow> Inr (h s))"


text \<open>
  A parser set on a stream holding the given text, at offset 0, every other member with its
  default member initialiser of the class (empty stacks, cursor (0, 0), flags false).
\<close>

definition AsciiParser_init :: "string \<Rightarrow> AsciiParser" where
  "AsciiParser_init input =
     \<lparr>sr = \<lparr>binary = input, idx = 0\<rparr>, path_stack = [], curr_cursor = Cursor_init,
      err_stack = [], warn_stack = [], parse_stack = [],
      sub_layered = False, referenced = False, payloaded = False, base_dir = []\<rparr>"

section \<open>The stream collaborator\<close>

text \<open>
  Modelled from the spec: \<open>StreamReader::eof\<close>, end-of-stream detection of the stream
  collaborator.
\<close>

definition sr_eof :: "StreamReader \<Rightarrow> bool" where
  "sr_eof r = (length (binary r) \<le> idx r)"

text \<open>Modelled from the spec: \<open>StreamReader::tell\<close>, the current offset of the stream.\<close>

definition sr_tell :: "StreamReader \<Rightarrow> nat" where
  "sr_tell r = idx r"

text \<open>
  Modelled from the spec: \<open>StreamReader::read1\<close>, the byte-level read of the stream: the
  byte at the current offset, and the offset moves on by one; no byte at the end of the
  stream.
\<close>

definition sr_read1 :: "StreamReader \<Rightarrow> char option \<times> StreamReader" where
  "sr_read1 r =
     (if idx r < length (binary r) then (Some (binary r ! idx r), r\<lparr>idx := idx r + 1\<rparr>)
      else (None, r))"

text \<open>
  Modelled from the spec: \<open>StreamReader::seek_set\<close>, the absolute seek of the stream; an
  offset beyond the end of the buffer is refused.
\<close>

definition sr_seek_set :: "nat \<Rightarrow> StreamReader \<Rightarrow> bool \<times> StreamReader" where
  "sr_seek_set pos r = (if pos \<le> length (binary r) then (True, r\<lparr>idx := pos\<rparr>) else (False, r))"

text \<open>\<open>bool Eof() { return _sr->eof(); }\<close>.\<close>

definition Eof :: "'s parser \<Rightarrow> bool" where
  "Eof p = sr_eof (sr p)"

text \<open>The input not yet consumed: the buffer from the current offset on.\<close>

definition remaining :: "'s parser \<Rightarrow> string" where
  "remaining p = drop (idx (sr p)) (binary (sr p))"

section \<open>Lexer primitives\<close>

text \<open>
  The header declares the lexer primitives; their bodies are in \<open>ascii-parser.cc\<close>, which is
  not part of the sources. The spec has the cursor updated by the lexer on every consumed
  character and gives no rule for it: the rule is a parameter \<open>adv\<close> of the model, from the
  consumed character and the cursor to the new cursor.
\<close>

type_synonym cursor_rule = "char \<Rightarrow> Cursor \<Rightarrow> Cursor"

text \<open>
  Modelled from the spec: \<open>bool LookChar1(char *c)\<close>, peek one character without
  consuming it.
\<close>

definition LookChar1 :: "'s parser \<Rightarrow> char option" where
  "LookChar1 p = fst (sr_read1 (sr p))"

text \<open>
  Modelled from the spec: \<open>bool Char1(char *c)\<close>, consume one character; the cursor is
  updated for the consumed character.
\<close>

definition Char1 :: "cursor_rule \<Rightarrow> 's parser \<Rightarrow> char option \<times> 's parser" where
  "Char1 adv p =
     (case sr_read1 (sr p) of
        (None, r) \<Rightarrow> (None, p)
      | (Some c, r) \<Rightarrow> (Some c, p\<lparr>sr := r, curr_cursor := adv c (curr_cursor p)\<rparr>))"

text \<open>
  Modelled from the spec: \<open>bool CharN(size_t n, std::vector<char> *nc)\<close>, consume N
  characters; a failure leaves the stream at the failure point.
\<close>

fun CharN :: "cursor_rule \<Rightarrow> nat \<Rightarrow> 's parser \<Rightarrow> string option \<times> 's parser" where
  "CharN adv 0 p = (Some [], p)"
| "CharN adv (Suc n) p =
     (case Char1 adv p of
        (None, p') \<Rightarrow> (None, p')
      | (Some c, p') \<Rightarrow>
          (case CharN adv n p' of
             (None, p'') \<Rightarrow> (None, p'')
           | (Some cs, p'') \<Rightarrow> (Some (c # cs), p'')))"

text \<open>
  Modelled from the spec: \<open>bool LookCharN(size_t n, std::vector<char> *nc)\<close>, peek N
  characters without consuming them.
\<close>

definition LookCharN :: "cursor_rule \<Rightarrow> nat \<Rightarrow> 's parser \<Rightarrow> string option" where
  "LookCharN adv n p = fst (CharN adv n p)"

text \<open>Modelled from the spec: \<open>uint64_t CurrLoc()\<close>, the current offset of the stream.\<close>

definition CurrLoc :: "'s parser \<Rightarrow> uint64_t" where
  "CurrLoc p = word_of_nat (sr_tell (sr p))"

text \<open>
  Modelled from the spec: \<open>bool SeekTo(uint64_t pos)\<close>, move to the absolute byte
  location \<open>pos\<close>.
\<close>

definition SeekTo :: "uint64_t \<Rightarrow> 's parser \<Rightarrow> bool \<times> 's parser" where
  "SeekTo pos p = (case sr_seek_set (unat pos) (sr p) of (ok, r) \<Rightarrow> (ok, p\<lparr>sr := r\<rparr>))"

text \<open>
  Modelled from the spec: \<open>bool Rewind(size_t offset)\<close>, move the stream back by
  \<open>offset\<close> bytes.
\<close>

definition Rewind :: "nat \<Rightarrow> 's parser \<Rightarrow> bool \<times> 's parser" where
  "Rewind offset p =
     (if offset \<le> sr_tell (sr p)
      then (case sr_seek_set (sr_tell (sr p) - offset) (sr p) of (ok, r) \<Rightarrow> (ok, p\<lparr>sr := r\<rparr>))
      else (False, p))"

text \<open>
  Modelled from the spec: \<open>bool PushParserState()\<close>, save a checkpoint: the absolute byte
  offset of the stream at snapshot time, pushed on the stack of checkpoints. The
  \<open>uint64_t\<close> offset is stored in the \<open>int64_t\<close> member with the same 64 bits.
\<close>

definition PushParserState :: "'s parser \<Rightarrow> bool \<times> 's parser" where
  "PushParserState p = (True, p\<lparr>parse_stack := \<lparr>loc = CurrLoc p\<rparr> # parse_stack p\<rparr>)"

text \<open>
  Modelled from the spec: \<open>bool PopParserState(ParseState *state)\<close>, take the most recent
  checkpoint off the stack and hand it out; false on an empty stack.
\<close>

definition PopParserState :: "'s parser \<Rightarrow> ParseState option \<times> 's parser" where
  "PopParserState p =
     (case parse_stack p of
        [] \<Rightarrow> (None, p)
      | st # sts \<Rightarrow> (Some st, p\<lparr>parse_stack := sts\<rparr>))"

text \<open>
  Modelled from the spec: the lexer consuming a run of \<open>n\<close> characters, one \<open>Char1\<close>
  at a time, so that the cursor is updated on every consumed character.
\<close>

definition consume :: "cursor_rule \<Rightarrow> nat \<Rightarrow> 's parser \<Rightarrow> 's parser" where
  "consume adv n p = ((\<lambda>q. snd (Char1 adv q)) ^^ n) p"

text \<open>
  Modelled from the spec: the whitespace and the newline characters, which the spec does not
  list: space, tab and form feed; line feed and carriage return.
\<close>

definition is_space :: "char \<Rightarrow> bool" where
  "is_space c = (c = CHR '' '' \<or> c = CHR 0x09 \<or> c = CHR 0x0C)"

definition is_newline :: "char \<Rightarrow> bool" where
  "is_newline c = (c = CHR 0x0A \<or> c = CHR 0x0D)"

text \<open>
  Modelled from the spec: \<open>bool SkipWhitespace()\<close>, skip whitespace: the run of blanks at
  the current position is consumed.
\<close>

definition SkipWhitespace :: "cursor_rule \<Rightarrow> 's parser \<Rightarrow> bool \<times> 's parser" where
  "SkipWhitespace adv p = (True, consume adv (length (takeWhile is_space (remaining p))) p)"

text \<open>
  Modelled from the spec: what \<open>SkipWhitespaceAndNewline\<close> skips, with its mode flag for
  the semicolon.
\<close>

definition is_blank :: "bool \<Rightarrow> char \<Rightarrow> bool" where
  "is_blank allow_semicolon c =
     (is_space c \<or> is_newline c \<or> (allow_semicolon \<and> c = CHR '';''))"

text \<open>
  Modelled from the spec: \<open>bool SkipWhitespaceAndNewline(bool allow_semicolon)\<close>, skip
  whitespace and newlines, with a mode flag for whether \<open>;\<close> also ends a logical line
  (true inside a statement block, false inside a bracketed list).
\<close>

definition SkipWhitespaceAndNewline :: "cursor_rule \<Rightarrow> bool \<Rightarrow> 's parser \<Rightarrow> bool \<times> 's parser" where
  "SkipWhitespaceAndNewline adv allow_semicolon p =
     (True, consume adv (length (takeWhile (is_blank allow_semicolon) (remaining p))) p)"

text \<open>
  Modelled from the spec: \<open>bool Expect(char expect_c)\<close>, a specific character is required
  after optional whitespace; on failure a diagnostic is pushed and the stream stays at the
  failure point.
\<close>

definition Expect :: "cursor_rule \<Rightarrow> char \<Rightarrow> 's parser \<Rightarrow> bool \<times> 's parser" where
  "Expect adv expect_c p =
     (let p1 = snd (SkipWhitespace adv p) in
      if LookChar1 p1 = Some expect_c then (True, snd (Char1 adv p1))
      else (False, PushError (''Expected '' @ [expect_c]) p1))"

section \<open>Typed-value decoder\<close>

text \<open>
  Modelled from the spec: \<open>bool MaybeNone()\<close>, the attempt to match the blocked-value
  keyword \<open>None\<close>: on a match the keyword is consumed and nothing beyond it; otherwise the
  stream is put back where it was, and no diagnostic is pushed (an expected alternative).
\<close>

definition MaybeNone :: "cursor_rule \<Rightarrow> 's parser \<Rightarrow> bool \<times> 's parser" where
  "MaybeNone adv p =
     (let loc = CurrLoc p in
      case CharN adv 4 p of
        (None, p') \<Rightarrow> (False, snd (SeekTo loc p'))
      | (Some buf, p') \<Rightarrow>
          if buf = ''None'' then (True, p') else (False, snd (SeekTo loc p')))"

text \<open>
  The bare decoder of an element type, \<open>bool ReadBasicType(T *value)\<close>: \<open>None\<close> is the
  return value false, \<open>Some v\<close> is true with \<open>*value = v\<close>. The decoders of the Value
  universe are declared in the header only; a decoder is a parameter \<open>rd\<close> of the optional,
  tuple and array forms.
\<close>

type_synonym ('a, 's) reader = "'s parser \<Rightarrow> 'a option \<times> 's parser"

text \<open>
  Modelled from the spec: \<open>bool ReadBasicType(nonstd::optional<T> *value)\<close>, the optional
  form: as bare, but first attempts to match \<open>None\<close>; on a match it returns success with no
  value (\<open>Some None\<close>), leaving the optional empty.
\<close>

definition ReadBasicType_optional ::
  "cursor_rule \<Rightarrow> ('a, 's) reader \<Rightarrow> 's parser \<Rightarrow> 'a option option \<times> 's parser" where
  "ReadBasicType_optional adv rd p =
     (case MaybeNone adv p of
        (True, p') \<Rightarrow> (Some None, p')
      | (False, p') \<Rightarrow>
          (case rd p' of
             (None, p'') \<Rightarrow> (None, p'')
           | (Some v, p'') \<Rightarrow> (Some (Some v), p'')))"

text \<open>
  Modelled from the spec: the loop of \<open>SepBy1BasicType(sep, end_symbol, result)\<close> after
  the first value: as long as a separator follows, the next value is read; a separator
  right before \<open>end_symbol\<close> is allowed in the last item and ends the list. The outer
  \<open>None\<close> is a loop that does not return.
\<close>

partial_function (option) SepBy1_loop ::
  "cursor_rule \<Rightarrow> ('a, 's) reader \<Rightarrow> char \<Rightarrow> char \<Rightarrow> 'a list \<Rightarrow> 's parser
     \<Rightarrow> ('a list option \<times> 's parser) option" where
  "SepBy1_loop adv rd sep end_symbol acc p =
     (let p1 = snd (SkipWhitespaceAndNewline adv False p) in
      if LookChar1 p1 \<noteq> Some sep then Some (Some acc, p1)
      else
        let p2 = snd (Char1 adv p1);
            p3 = snd (SkipWhitespaceAndNewline adv False p2) in
        if LookChar1 p3 = Some end_symbol then Some (Some acc, p3)
        else
          (case rd p3 of
             (None, p4) \<Rightarrow> Some (None, p4)
           | (Some v, p4) \<Rightarrow> SepBy1_loop adv rd sep end_symbol (acc @ [v]) p4))"

declare SepBy1_loop.simps [code]

text \<open>
  Modelled from the spec: \<open>bool SepBy1BasicType(const char sep, const char end_symbol,
  std::vector<T> *result)\<close>, one or more values of the element type separated by \<open>sep\<close>.
\<close>

definition SepBy1BasicType ::
  "cursor_rule \<Rightarrow> ('a, 's) reader \<Rightarrow> char \<Rightarrow> char \<Rightarrow> 's parser
     \<Rightarrow> ('a list option \<times> 's parser) option" where
  "SepBy1BasicType adv rd sep end_symbol p =
     (let p1 = snd (SkipWhitespaceAndNewline adv False p) in
      case rd p1 of
        (None, p2) \<Rightarrow> Some (None, PushError ''Not starting with the value of requested type.'' p2)
      | (Some v, p2) \<Rightarrow> SepBy1_loop adv rd sep end_symbol [v] p2)"

text \<open>
  Modelled from the spec: \<open>bool ParseBasicTypeArray(std::vector<T> *result)\<close>, the array
  form: \<open>[\<close>, zero or more comma-separated elements, a trailing comma before \<open>]\<close>
  permitted, \<open>]\<close>.
\<close>

definition ParseBasicTypeArray ::
  "cursor_rule \<Rightarrow> ('a, 's) reader \<Rightarrow> 's parser \<Rightarrow> ('a list option \<times> 's parser) option" where
  "ParseBasicTypeArray adv rd p =
     (case Expect adv (CHR ''['') p of
        (False, p1) \<Rightarrow> Some (None, p1)
      | (True, p1) \<Rightarrow>
          let p2 = snd (SkipWhitespaceAndNewline adv False p1) in
          if LookChar1 p2 = Some (CHR '']'') then Some (Some [], snd (Char1 adv p2))
          else
            (case SepBy1BasicType adv rd (CHR '','') (CHR '']'') p2 of
               None \<Rightarrow> None
             | Some (None, p3) \<Rightarrow> Some (None, p3)
             | Some (Some vs, p3) \<Rightarrow>
                 (case Expect adv (CHR '']'') p3 of
                    (False, p4) \<Rightarrow> Some (None, p4)
                  | (True, p4) \<Rightarrow> Some (Some vs, p4))))"


text \<open>
  Modelled from the spec: the decimal digits and the value of a run of digits, for the
  decoder of integer literals.
\<close>

definition is_digit :: "char \<Rightarrow> bool" where
  "is_digit c = (48 \<le> (of_char c :: nat) \<and> (of_char c :: nat) \<le> 57)"

definition dec_val :: "string \<Rightarrow> nat" where
  "dec_val ds = foldl (\<lambda>a c. 10 * a + ((of_char c :: nat) - 48)) 0 ds"

text \<open>
  Modelled from the spec: \<open>bool ReadBasicType(int32_t *value)\<close>, the bare decoder of the
  32-bit signed integers: exactly one decimal literal at the current position, an optional
  minus sign and digits; a literal outside the range of the type fails.
\<close>

definition ReadBasicType_int32 :: "cursor_rule \<Rightarrow> (int32_t, 's) reader" where
  "ReadBasicType_int32 adv p =
     (let input = remaining p;
          neg = (input \<noteq> [] \<and> hd input = CHR ''-'');
          ds = takeWhile is_digit (if neg then tl input else input);
          n = (if neg then - int (dec_val ds) else int (dec_val ds))
      in if ds = [] then (None, PushError ''Integer value expected.'' p)
         else if n < - (2 ^ 31) \<or> 2 ^ 31 \<le> n
         then (None, PushError ''Integer value out of range.''
                       (consume adv ((if neg then 1 else 0) + length ds) p))
         else (Some (word_of_int n), consume adv ((if neg then 1 else 0) + length ds) p))"

section \<open>Textual forms\<close>

text \<open>The decimal text of an integer.\<close>

fun show_nat :: "nat \<Rightarrow> string" where
  "show_nat n =
     (if n < 10 then [char_of (48 + n)] else show_nat (n div 10) @ [char_of (48 + n mod 10)])"

declare show_nat.simps [simp del]

definition show_int :: "int \<Rightarrow> string" where
  "show_int i = (if i < 0 then CHR ''-'' # show_nat (nat (- i)) else show_nat (nat i))"

definition show_int32 :: "int32_t \<Rightarrow> string" where
  "show_int32 w = show_int (sint w)"

definition is_delim :: "char \<Rightarrow> bool" where
  "is_delim c = (c = CHR '','' \<or> c = CHR '')'' \<or> c = CHR '']'')"

text \<open>
  What a bare decoder \<open>rd\<close> of an element type with the literals \<open>pr v\<close> does: a literal is
  not empty and starts with neither a blank nor a delimiter; in front of a literal followed
  by a delimiter, \<open>rd\<close> returns its value and stops at the delimiter; in front of a
  delimiter, \<open>rd\<close> fails.
\<close>

definition bare_decoder :: "('a, 's) reader \<Rightarrow> ('a \<Rightarrow> string) \<Rightarrow> bool" where
  "bare_decoder rd pr =
     ((\<forall>v. pr v \<noteq> [] \<and> \<not> is_blank False (hd (pr v)) \<and> \<not> is_delim (hd (pr v)))
      \<and> (\<forall>v c rest p. remaining p = pr v @ c # rest \<and> is_delim c
            \<longrightarrow> fst (rd p) = Some v \<and> remaining (snd (rd p)) = c # rest)
      \<and> (\<forall>c rest p. remaining p = c # rest \<and> is_delim c \<longrightarrow> fst (rd p) = None))"

text \<open>
  The text of a bracketed list: each element is its literal after a padding of blanks, the
  elements are separated by commas, and \<open>tr\<close> trailing commas stand before the closing
  bracket.
\<close>

definition blanks :: "string \<Rightarrow> bool" where
  "blanks w = list_all (is_blank False) w"

definition padded :: "('a \<Rightarrow> string) \<Rightarrow> string \<times> 'a \<Rightarrow> string" where
  "padded pr item = fst item @ pr (snd item)"

fun sep_text :: "('a \<Rightarrow> string) \<Rightarrow> (string \<times> 'a) list \<Rightarrow> string" where
  "sep_text pr [] = []"
| "sep_text pr [x] = padded pr x"
| "sep_text pr (x # y # ys) = padded pr x @ CHR '','' # sep_text pr (y # ys)"

definition list_text ::
  "char \<Rightarrow> char \<Rightarrow> ('a \<Rightarrow> string) \<Rightarrow> (string \<times> 'a) list \<Rightarrow> nat \<Rightarrow> string" where
  "list_text opn cls pr items tr = opn # sep_text pr items @ replicate tr (CHR '','') @ [cls]"

section \<open>The form of a tuple text\<close>

text \<open>
  A decoder on the text: from the input ahead, the value of the literal at its start and
  the input left after it, or \<open>None\<close> when no literal starts there.
\<close>

type_synonym 'a text_dec = "string \<Rightarrow> ('a \<times> string) option"

text \<open>The text does not start with a character of the class \<open>P\<close> (it may be empty).\<close>

definition no_lead :: "(char \<Rightarrow> bool) \<Rightarrow> string \<Rightarrow> bool" where
  "no_lead P t = (case t of [] \<Rightarrow> True | c # cs \<Rightarrow> \<not> P c)"


text \<open>
  The input after a value of a comma-separated list closed by \<open>e\<close>, the values still read
  from it and the input left in front of the closing symbol: no comma follows (after
  optional blanks); or one trailing comma stands before \<open>e\<close>; or a comma and another
  value follow, and the list goes on.
\<close>

inductive more_elems :: "'a text_dec \<Rightarrow> char \<Rightarrow> string \<Rightarrow> 'a list \<Rightarrow> string \<Rightarrow> bool"
  for dec :: "'a text_dec" and e :: char
where
  no_more:
    "blanks b \<Longrightarrow> no_lead (is_blank False) fin \<Longrightarrow> no_lead (\<lambda>c. c = CHR '','') fin \<Longrightarrow>
     more_elems dec e (b @ fin) [] fin"
| trailing:
    "blanks b \<Longrightarrow> blanks b' \<Longrightarrow>
     more_elems dec e (b @ CHR '','' # b' @ e # rest) [] (e # rest)"
| another:
    "blanks b \<Longrightarrow> blanks b' \<Longrightarrow> no_lead (is_blank False) t \<Longrightarrow> no_lead (\<lambda>c. c = e) t \<Longrightarrow>
     dec t = Some (v, r) \<Longrightarrow> more_elems dec e r vs fin \<Longrightarrow>
     more_elems dec e (b @ CHR '','' # b' @ t) (v # vs) fin"

text \<open>One or more comma-separated values, after optional blanks.\<close>

inductive elems_form :: "'a text_dec \<Rightarrow> char \<Rightarrow> string \<Rightarrow> 'a list \<Rightarrow> string \<Rightarrow> bool"
  for dec :: "'a text_dec" and e :: char
where
  first:
    "blanks b \<Longrightarrow> no_lead (is_blank False) t \<Longrightarrow> dec t = Some (v, r) \<Longrightarrow>
     more_elems dec e r vs fin \<Longrightarrow> elems_form dec e (b @ t) (v # vs) fin"




section \<open>Checkpoint and restore\<close>

text \<open>
  The operations that consume or move over the input, and what each returns: the bytes it
  read when it succeeds (none for a skip or a seek), \<open>None\<close> when it fails.
\<close>

datatype lex_op =
    OpChar1 | OpCharN nat | OpLookChar1 | OpLookCharN nat
  | OpSkipWhitespace | OpSkipWhitespaceAndNewline bool | OpRewind nat | OpSeekTo uint64_t

definition flag :: "bool \<times> 's parser \<Rightarrow> string option \<times> 's parser" where
  "flag r = (if fst r then Some [] else None, snd r)"

fun run_op :: "cursor_rule \<Rightarrow> lex_op \<Rightarrow> 's parser \<Rightarrow> string option \<times> 's parser" where
  "run_op adv OpChar1 p = (case Char1 adv p of (c, p') \<Rightarrow> (map_option (\<lambda>x. [x]) c, p'))"
| "run_op adv (OpCharN n) p = CharN adv n p"
| "run_op adv OpLookChar1 p = (map_option (\<lambda>x. [x]) (LookChar1 p), p)"
| "run_op adv (OpLookCharN n) p = (LookCharN adv n p, p)"
| "run_op adv OpSkipWhitespace p = flag (SkipWhitespace adv p)"
| "run_op adv (OpSkipWhitespaceAndNewline b) p = flag (SkipWhitespaceAndNewline adv b p)"
| "run_op adv (OpRewind n) p = flag (Rewind n p)"
| "run_op adv (OpSeekTo pos) p = flag (SeekTo pos p)"

fun run_ops :: "cursor_rule \<Rightarrow> lex_op list \<Rightarrow> 's parser \<Rightarrow> string option list \<times> 's parser" where
  "run_ops adv [] p = ([], p)"
| "run_ops adv (x # xs) p =
     (case run_op adv x p of
        (out, p') \<Rightarrow> (case run_ops adv xs p' of (outs, p'') \<Rightarrow> (out # outs, p'')))"

text \<open>
  Save a checkpoint, run the operations, restore: \<open>PopParserState\<close>, then \<open>SeekTo\<close> the
  saved offset (the \<open>int64_t\<close> member converted back to \<open>uint64_t\<close>, the same 64 bits).
  \<open>None\<close> when a step returns false.
\<close>

definition checkpoint_roundtrip :: "cursor_rule \<Rightarrow> lex_op list \<Rightarrow> 's parser \<Rightarrow> 's parser option" where
  "checkpoint_roundtrip adv ops p =
     (case PushParserState p of
        (False, p1) \<Rightarrow> None
      | (True, p1) \<Rightarrow>
          (case PopParserState (snd (run_ops adv ops p1)) of
             (None, p3) \<Rightarrow> None
           | (Some st, p3) \<Rightarrow>
               (case SeekTo (loc st) p3 of (False, p4) \<Rightarrow> None | (True, p4) \<Rightarrow> Some p4)))"

text \<open>
  A stream in order: the offset is within the buffer, and the buffer is shorter than
  \<open>2 ^ 64\<close> bytes, so that an offset fits \<open>uint64_t\<close>.
\<close>

definition sr_ok :: "'s parser \<Rightarrow> bool" where
  "sr_ok p = (idx (sr p) \<le> length (binary (sr p)) \<and> length (binary (sr p)) < 2 ^ 64)"

text \<open>
  The second parser reads the buffer and has the checkpoints of the first, at an offset
  that is within the buffer if that of the first is.
\<close>

definition same_buffer :: "'s parser \<Rightarrow> 's parser \<Rightarrow> bool" where
  "same_buffer p q =
     (sr q = (sr p)\<lparr>idx := idx (sr q)\<rparr> \<and> parse_stack q = parse_stack p
      \<and> (idx (sr p) \<le> length (binary (sr p)) \<longrightarrow> idx (sr q) \<le> length (binary (sr p))))"

section \<open>Properties of the diagnostics\<close>

lemma PopError_PushError: "PopError (PushError msg p) = p"
  by (simp add: PopError_def PushError_def Let_def)

lemma PopWarn_PushWarn: "PopWarn (PushWarn msg p) = p"
  by (simp add: PopWarn_def PushWarn_def Let_def)

lemma pops_after_pushes:
  "(PopError ^^ length msgs) (fold PushError msgs p) = p"
proof (induction msgs arbitrary: p)
  case Nil
  show ?case by simp
next
  case (Cons m ms)
  have "(PopError ^^ length (m # ms)) (fold PushError (m # ms) p)
        = PopError ((PopError ^^ length ms) (fold PushError ms (PushError m p)))"
    by (simp add: funpow_swap1)
  also have "\<dots> = PopError (PushError m p)"
    by (simp only: Cons.IH)
  also have "\<dots> = p"
    by (rule PopError_PushError)
  finally show ?case .
qed

text \<open>
  C5: N calls of PushError, with any messages, followed by N calls of PopError leave the
  parser, and so the error log and every report rendered from it, as it was before the
  first push.
\<close>

theorem push_pop_symmetry:
  "(PopError ^^ length msgs) (fold PushError msgs p) = p
   \<and> err_stack ((PopError ^^ length msgs) (fold PushError msgs p)) = err_stack p
   \<and> (GetError :: 's parser \<Rightarrow> string) ((PopError ^^ length msgs) (fold PushError msgs p))
       = GetError p"
  by (simp add: pops_after_pushes)

text \<open>
  C6: PopError and PopWarn remove exactly the top (most recently pushed) diagnostic of
  their own stack when it is not empty, and leave the parser as it is when it is empty.
\<close>

theorem pop_removes_most_recent:
  "PopError (p\<lparr>err_stack := d # ds\<rparr>) = p\<lparr>err_stack := ds\<rparr>
   \<and> PopError (p\<lparr>err_stack := []\<rparr>) = p\<lparr>err_stack := []\<rparr>
   \<and> PopError (PushError msg p) = p
   \<and> PopWarn (p\<lparr>warn_stack := d # ds\<rparr>) = p\<lparr>warn_stack := ds\<rparr>
   \<and> PopWarn (p\<lparr>warn_stack := []\<rparr>) = p\<lparr>warn_stack := []\<rparr>
   \<and> PopWarn (PushWarn msg p) = p"
  by (simp add: PopError_def PopWarn_def PushError_def PushWarn_def Let_def)

text \<open>
  C7: IsToplevel is true exactly when IsReferenced, IsSubLayered and IsPayloaded are all
  false, for every combination of the three flags.
\<close>

theorem toplevel_iff_no_flag:
  "IsToplevel (p\<lparr>referenced := r, sub_layered := l, payloaded := y\<rparr>) = (\<not> r \<and> \<not> l \<and> \<not> y)
   \<and> IsToplevel p = (\<not> IsReferenced p \<and> \<not> IsSubLayered p \<and> \<not> IsPayloaded p)"
  by (simp add: IsToplevel_def IsReferenced_def IsSubLayered_def IsPayloaded_def)

text \<open>
  C8: PathStackDepth is true exactly when the path stack is not empty; it tells presence
  only: a stack of two or more paths answers as a stack of one.
\<close>

theorem path_stack_depth_is_presence:
  "PathStackDepth p = (path_stack p \<noteq> [])
   \<and> PathStackDepth (PushPath q (PushPath q' p)) = PathStackDepth (PushPath q p)"
  by (simp add: PathStackDepth_def PushPath_def)

text \<open>
  C9: PushError pushes one diagnostic, holding the message and the cursor of the call, on
  the error stack and changes nothing else; PushWarn does the same on the warning stack.
\<close>

theorem push_frame:
  "PushError msg p
     = p\<lparr>err_stack := \<lparr>err = msg, cursor = \<lparr>row = row (curr_cursor p), col = col (curr_cursor p)\<rparr>\<rparr>
                        # err_stack p\<rparr>
   \<and> warn_stack (PushError msg p) = warn_stack p
   \<and> curr_cursor (PushError msg p) = curr_cursor p
   \<and> sr (PushError msg p) = sr p
   \<and> tl (err_stack (PushError msg p)) = err_stack p
   \<and> PushWarn msg p
     = p\<lparr>warn_stack := \<lparr>err = msg, cursor = \<lparr>row = row (curr_cursor p), col = col (curr_cursor p)\<rparr>\<rparr>
                        # warn_stack p\<rparr>
   \<and> err_stack (PushWarn msg p) = err_stack p
   \<and> curr_cursor (PushWarn msg p) = curr_cursor p
   \<and> sr (PushWarn msg p) = sr p
   \<and> tl (warn_stack (PushWarn msg p)) = warn_stack p"
  by (simp add: PushError_def PushWarn_def Let_def ErrorDiagnositc_init_def Cursor_init_def)

text \<open>
  C10: DefaultPostParseHandler returns true for every string and never an error message,
  so a schema entry built by the constructor with the validator left out accepts every
  decoded value.
\<close>

theorem default_handler_accepts:
  "DefaultPostParseHandler s = Inr True
   \<and> DefaultPostParseHandler s \<noteq> Inl msg
   \<and> call_post_parse_handler (VariableDef_ctor t n a None) s = Inr (Inr True)"
  by (simp add: DefaultPostParseHandler_def call_post_parse_handler_def VariableDef_ctor_def)

section \<open>The lexer on the remaining input\<close>

lemma remaining_Nil_iff: "remaining p = [] \<longleftrightarrow> length (binary (sr p)) \<le> idx (sr p)"
  by (simp add: remaining_def)

lemma remaining_hd:
  "remaining p = c # cs \<Longrightarrow> idx (sr p) < length (binary (sr p)) \<and> binary (sr p) ! idx (sr p) = c"
proof -
  assume a: "remaining p = c # cs"
  then have "remaining p \<noteq> []" by simp
  then have lt: "idx (sr p) < length (binary (sr p))"
    by (simp add: remaining_Nil_iff)
  from a have "hd (drop (idx (sr p)) (binary (sr p))) = c"
    by (simp add: remaining_def)
  with lt show ?thesis by (simp add: hd_drop_conv_nth)
qed


lemma LookChar1_Cons: "remaining p = c # cs \<Longrightarrow> LookChar1 p = Some c"
  using remaining_hd [of p c cs] by (simp add: LookChar1_def sr_read1_def)

lemma Char1_Nil: "remaining p = [] \<Longrightarrow> Char1 adv p = (None, p)"
  by (simp add: Char1_def sr_read1_def remaining_Nil_iff)

lemma Char1_Cons:
  "remaining p = c # cs \<Longrightarrow>
   Char1 adv p = (Some c, p\<lparr>sr := (sr p)\<lparr>idx := idx (sr p) + 1\<rparr>,
                            curr_cursor := adv c (curr_cursor p)\<rparr>)"
  using remaining_hd [of p c cs] by (simp add: Char1_def sr_read1_def)

lemma remaining_step:
  "remaining (p\<lparr>sr := (sr p)\<lparr>idx := idx (sr p) + 1\<rparr>, curr_cursor := k\<rparr>) = tl (remaining p)"
  by (simp add: remaining_def drop_Suc tl_drop)

lemma Char1_remaining:
  "remaining (snd (Char1 adv p)) = tl (remaining p)"
proof (cases "remaining p")
  case Nil
  then show ?thesis by (simp add: Char1_Nil)
next
  case (Cons c cs)
  then show ?thesis by (simp only: Char1_Cons snd_conv remaining_step)
qed

lemma Char1_frame:
  "err_stack (snd (Char1 adv p)) = err_stack p"
  "warn_stack (snd (Char1 adv p)) = warn_stack p"
  "parse_stack (snd (Char1 adv p)) = parse_stack p"
  "binary (sr (snd (Char1 adv p))) = binary (sr p)"
  by (cases "remaining p"; simp add: Char1_Nil Char1_Cons)+

lemma Char1_idx:
  "remaining p = c # cs \<Longrightarrow> idx (sr (snd (Char1 adv p))) = idx (sr p) + 1"
  by (simp add: Char1_Cons)

lemma consume_0: "consume adv 0 p = p"
  by (simp add: consume_def)

lemma consume_Suc: "consume adv (Suc n) p = consume adv n (snd (Char1 adv p))"
  by (simp only: consume_def funpow_Suc_right o_apply)

lemma consume_remaining: "remaining (consume adv n p) = drop n (remaining p)"
proof (induction n arbitrary: p)
  case 0
  show ?case by (simp add: consume_0)
next
  case (Suc n)
  show ?case by (simp add: consume_Suc Suc.IH Char1_remaining drop_Suc)
qed

lemma consume_frame:
  "err_stack (consume adv n p) = err_stack p"
  "warn_stack (consume adv n p) = warn_stack p"
  "parse_stack (consume adv n p) = parse_stack p"
  "binary (sr (consume adv n p)) = binary (sr p)"
  by (induction n arbitrary: p; simp add: consume_0 consume_Suc Char1_frame)+

lemma CharN_prefix:
  "remaining p = xs @ rest \<Longrightarrow>
   \<exists>p'. CharN adv (length xs) p = (Some xs, p') \<and> remaining p' = rest
        \<and> idx (sr p') = idx (sr p) + length xs \<and> binary (sr p') = binary (sr p)
        \<and> err_stack p' = err_stack p \<and> warn_stack p' = warn_stack p
        \<and> parse_stack p' = parse_stack p"
proof (induction xs arbitrary: p)
  case Nil
  then show ?case by simp
next
  case (Cons x xs)
  from Cons.prems have r: "remaining p = x # (xs @ rest)" by simp
  obtain q where q: "Char1 adv p = (Some x, q)"
    using Char1_Cons [OF r] by simp
  have sq: "q = snd (Char1 adv p)" by (simp add: q)
  have rq: "remaining q = xs @ rest" by (simp add: sq Char1_remaining r)
  have fq: "idx (sr q) = idx (sr p) + 1" "binary (sr q) = binary (sr p)"
    "err_stack q = err_stack p" "warn_stack q = warn_stack p" "parse_stack q = parse_stack p"
    by (simp_all add: sq Char1_frame Char1_idx [OF r])
  from Cons.IH [OF rq] obtain p' where
    p': "CharN adv (length xs) q = (Some xs, p')" "remaining p' = rest"
        "idx (sr p') = idx (sr q) + length xs" "binary (sr p') = binary (sr q)"
        "err_stack p' = err_stack q" "warn_stack p' = warn_stack q"
        "parse_stack p' = parse_stack q"
    by blast
  have "CharN adv (length (x # xs)) p = (Some (x # xs), p')"
    by (simp add: q p'(1))
  with p' fq show ?case by simp
qed

section \<open>Operations on the same buffer\<close>

lemma same_buffer_refl: "same_buffer p p"
  by (simp add: same_buffer_def)

lemma same_buffer_trans: "same_buffer p q \<Longrightarrow> same_buffer q r \<Longrightarrow> same_buffer p r"
  unfolding same_buffer_def
  by (metis StreamReader.select_convs(1) StreamReader.surjective StreamReader.update_convs(2))

lemma Char1_same: "same_buffer p (snd (Char1 adv p))"
  by (simp add: same_buffer_def Char1_def sr_read1_def)

lemma consume_same: "same_buffer p (consume adv n p)"
proof (induction n arbitrary: p)
  case 0
  show ?case by (simp add: consume_0 same_buffer_refl)
next
  case (Suc n)
  show ?case
    unfolding consume_Suc
    by (rule same_buffer_trans [OF Char1_same Suc.IH])
qed

lemma CharN_same: "same_buffer p (snd (CharN adv n p))"
proof (induction n arbitrary: p)
  case 0
  show ?case by (simp add: same_buffer_refl)
next
  case (Suc n)
  obtain c q where q: "Char1 adv p = (c, q)" by (cases "Char1 adv p")
  have pq: "same_buffer p q" using Char1_same [of p adv] by (simp add: q)
  show ?case
  proof (cases c)
    case None
    with q pq show ?thesis by simp
  next
    case (Some x)
    obtain cs r where r: "CharN adv n q = (cs, r)" by (cases "CharN adv n q")
    have "same_buffer q r" using Suc.IH [of q] by (simp add: r)
    with pq have "same_buffer p r" by (rule same_buffer_trans)
    with q r Some show ?thesis by (cases cs) simp_all
  qed
qed

lemma SeekTo_same: "same_buffer p (snd (SeekTo pos p))"
  by (simp add: same_buffer_def SeekTo_def sr_seek_set_def)

lemma Rewind_same: "same_buffer p (snd (Rewind n p))"
  by (simp add: same_buffer_def Rewind_def sr_seek_set_def sr_tell_def)

lemma run_op_same: "same_buffer p (snd (run_op adv x p))"
  by (cases x)
     (simp_all add: flag_def SkipWhitespace_def SkipWhitespaceAndNewline_def consume_same
        CharN_same SeekTo_same Rewind_same same_buffer_refl Char1_same split: prod.split,
      metis Char1_same snd_conv)

lemma run_ops_same: "same_buffer p (snd (run_ops adv xs p))"
proof (induction xs arbitrary: p)
  case Nil
  show ?case by (simp add: same_buffer_refl)
next
  case (Cons x xs)
  have "same_buffer p (snd (run_op adv x p))" by (rule run_op_same)
  moreover have "same_buffer (snd (run_op adv x p)) (snd (run_ops adv xs (snd (run_op adv x p))))"
    by (rule Cons.IH)
  ultimately have "same_buffer p (snd (run_ops adv xs (snd (run_op adv x p))))"
    by (rule same_buffer_trans)
  then show ?case by (simp add: case_prod_unfold)
qed

text \<open>Reads depend on the stream only.\<close>

lemma Char1_stream:
  "sr p = sr q \<Longrightarrow> fst (Char1 adv p) = fst (Char1 adv q) \<and> sr (snd (Char1 adv p)) = sr (snd (Char1 adv q))"
  by (simp add: Char1_def split: prod.split option.split)

lemma consume_stream: "sr p = sr q \<Longrightarrow> sr (consume adv n p) = sr (consume adv n q)"
proof (induction n arbitrary: p q)
  case 0
  then show ?case by (simp add: consume_0)
next
  case (Suc n)
  from Char1_stream [OF Suc.prems, of adv]
  have "sr (snd (Char1 adv p)) = sr (snd (Char1 adv q))" by simp
  then show ?case unfolding consume_Suc by (rule Suc.IH)
qed

lemma CharN_Suc_fst:
  "fst (CharN adv (Suc n) p) =
     (case fst (Char1 adv p) of None \<Rightarrow> None
      | Some c \<Rightarrow> (case fst (CharN adv n (snd (Char1 adv p))) of None \<Rightarrow> None
                   | Some cs \<Rightarrow> Some (c # cs)))"
  by (simp add: case_prod_unfold split: option.split)

lemma CharN_Suc_snd:
  "snd (CharN adv (Suc n) p) =
     (case fst (Char1 adv p) of None \<Rightarrow> snd (Char1 adv p)
      | Some c \<Rightarrow> snd (CharN adv n (snd (Char1 adv p))))"
  by (simp add: case_prod_unfold split: option.split)

lemma CharN_stream:
  "sr p = sr q \<Longrightarrow> fst (CharN adv n p) = fst (CharN adv n q) \<and> sr (snd (CharN adv n p)) = sr (snd (CharN adv n q))"
proof (induction n arbitrary: p q)
  case 0
  then show ?case by simp
next
  case (Suc n)
  from Char1_stream [OF Suc.prems, of adv]
  have e: "fst (Char1 adv p) = fst (Char1 adv q)" "sr (snd (Char1 adv p)) = sr (snd (Char1 adv q))"
    by simp_all
  from Suc.IH [OF e(2)] e show ?case
    by (simp only: CharN_Suc_fst CharN_Suc_snd split: option.split) simp
qed

lemma remaining_stream: "sr p = sr q \<Longrightarrow> remaining p = remaining q"
  by (simp add: remaining_def)

lemma run_op_stream:
  assumes "sr p = sr q"
  shows "fst (run_op adv x p) = fst (run_op adv x q) \<and> sr (snd (run_op adv x p)) = sr (snd (run_op adv x q))"
proof (cases x)
  case OpChar1
  with Char1_stream [OF assms, of adv] show ?thesis by (simp add: case_prod_unfold)
next
  case (OpCharN n)
  with CharN_stream [OF assms, of adv n] show ?thesis by simp
next
  case OpLookChar1
  with assms show ?thesis by (simp add: LookChar1_def)
next
  case (OpLookCharN n)
  with CharN_stream [OF assms, of adv n] assms show ?thesis by (simp add: LookCharN_def)
next
  case OpSkipWhitespace
  with consume_stream [OF assms] remaining_stream [OF assms] show ?thesis
    by (simp add: flag_def SkipWhitespace_def)
next
  case (OpSkipWhitespaceAndNewline b)
  with consume_stream [OF assms] remaining_stream [OF assms] show ?thesis
    by (simp add: flag_def SkipWhitespaceAndNewline_def)
next
  case (OpRewind n)
  with assms show ?thesis by (simp add: flag_def Rewind_def split: prod.split)
next
  case (OpSeekTo pos)
  with assms show ?thesis by (simp add: flag_def SeekTo_def split: prod.split)
qed

lemma run_ops_stream:
  "sr p = sr q \<Longrightarrow> fst (run_ops adv xs p) = fst (run_ops adv xs q)"
proof (induction xs arbitrary: p q)
  case Nil
  show ?case by simp
next
  case (Cons x xs)
  from run_op_stream [OF Cons.prems, of adv x]
  have h: "fst (run_op adv x p) = fst (run_op adv x q)"
          "sr (snd (run_op adv x p)) = sr (snd (run_op adv x q))" by simp_all
  from Cons.IH [OF h(2)] h(1) show ?case by (simp add: case_prod_unfold)
qed

lemma unat_loc: "n < 2 ^ 64 \<Longrightarrow> unat (word_of_nat n :: 64 word) = n"
  by (simp add: unsigned_of_nat take_bit_nat_eq_self)

lemma checkpoint_restores:
  assumes "sr_ok p"
  shows "\<exists>p'. checkpoint_roundtrip adv ops p = Some p' \<and> sr p' = sr p
          \<and> parse_stack p' = parse_stack p"
proof -
  let ?st = "\<lparr>loc = CurrLoc p\<rparr>"
  let ?p1 = "p\<lparr>parse_stack := ?st # parse_stack p\<rparr>"
  let ?p2 = "snd (run_ops adv ops ?p1)"
  let ?p3 = "?p2\<lparr>parse_stack := parse_stack p\<rparr>"
  from assms have ok: "idx (sr p) \<le> length (binary (sr p))" "idx (sr p) < 2 ^ 64"
    by (simp_all add: sr_ok_def)
  have sb: "same_buffer ?p1 ?p2" by (rule run_ops_same)
  then have ps: "parse_stack ?p2 = ?st # parse_stack p"
    and s2: "sr ?p2 = (sr p)\<lparr>idx := idx (sr ?p2)\<rparr>"
    by (simp_all add: same_buffer_def)
  from ps have pop: "PopParserState ?p2 = (Some ?st, ?p3)"
    by (simp add: PopParserState_def)
  have u: "unat (CurrLoc p) = idx (sr p)"
    using ok(2) by (simp add: CurrLoc_def sr_tell_def unat_loc)
  from s2 have b: "binary (sr ?p2) = binary (sr p)"
    by (metis StreamReader.select_convs(1) StreamReader.surjective StreamReader.update_convs(2))
  have seek: "SeekTo (loc ?st) ?p3 = (True, ?p3\<lparr>sr := (sr ?p2)\<lparr>idx := idx (sr p)\<rparr>\<rparr>)"
    using ok(1) by (simp add: SeekTo_def sr_seek_set_def u b)
  have e: "(sr ?p2)\<lparr>idx := idx (sr p)\<rparr> = sr p"
    by (subst s2) simp
  have "checkpoint_roundtrip adv ops p = Some (?p3\<lparr>sr := (sr ?p2)\<lparr>idx := idx (sr p)\<rparr>\<rparr>)"
    by (simp only: checkpoint_roundtrip_def PushParserState_def prod.case bool.case pop seek
          option.case)
  with e show ?thesis by simp
qed

section \<open>Separated lists\<close>

lemma skip_remaining:
  "remaining (snd (SkipWhitespaceAndNewline adv b p)) = dropWhile (is_blank b) (remaining p)"
  by (simp add: SkipWhitespaceAndNewline_def consume_remaining dropWhile_eq_drop)

lemma skipws_remaining:
  "remaining (snd (SkipWhitespace adv p)) = dropWhile is_space (remaining p)"
  by (simp add: SkipWhitespace_def consume_remaining dropWhile_eq_drop)

lemma takeWhile_dropWhile_Nil: "takeWhile P (dropWhile P xs) = []"
  by (induction xs) simp_all

lemma skip_idem:
  "snd (SkipWhitespaceAndNewline adv b (snd (SkipWhitespaceAndNewline adv b p)))
     = snd (SkipWhitespaceAndNewline adv b p)"
proof -
  let ?q = "snd (SkipWhitespaceAndNewline adv b p)"
  have "takeWhile (is_blank b) (remaining ?q) = []"
    by (simp add: skip_remaining takeWhile_dropWhile_Nil)
  then show ?thesis
    by (simp add: SkipWhitespaceAndNewline_def consume_0)
qed

lemma delim_not_blank: "is_delim c \<Longrightarrow> \<not> is_blank False c"
  by (auto simp: is_delim_def is_blank_def is_space_def is_newline_def)

lemma delim_not_space: "is_delim c \<Longrightarrow> \<not> is_space c"
  by (auto simp: is_delim_def is_space_def)

lemma dropWhile_blanks:
  "blanks w \<Longrightarrow> \<not> is_blank False c \<Longrightarrow> dropWhile (is_blank False) (w @ c # r) = c # r"
  by (simp add: blanks_def list_all_iff dropWhile_append2)

lemma Expect_ok:
  assumes "remaining p = c # rest" and "\<not> is_space c"
  shows "fst (Expect adv c p) \<and> remaining (snd (Expect adv c p)) = rest"
proof -
  let ?p1 = "snd (SkipWhitespace adv p)"
  from assms have r1: "remaining ?p1 = c # rest" by (simp add: skipws_remaining)
  then have "LookChar1 ?p1 = Some c" by (rule LookChar1_Cons)
  then have "Expect adv c p = (True, snd (Char1 adv ?p1))"
    by (simp add: Expect_def Let_def)
  with r1 show ?thesis by (simp add: Char1_remaining)
qed

lemma sep_text_Cons:
  "sep_text pr (x # xs) = padded pr x @ concat (map (\<lambda>y. CHR '','' # padded pr y) xs)"
  by (induction xs arbitrary: x) simp_all

lemma tail_delim:
  assumes "is_delim e"
  shows "\<exists>c r. concat (map (\<lambda>y. CHR '','' # padded pr y) xs) @ replicate tr (CHR '','') @ e # rest
               = c # r \<and> is_delim c"
proof (cases xs)
  case Nil
  with assms show ?thesis by (cases tr) (simp_all add: is_delim_def)
next
  case (Cons y ys)
  then show ?thesis by (simp add: is_delim_def)
qed

lemma loop_ok:
  assumes bd: "bare_decoder rd pr" and e: "is_delim e" "e \<noteq> CHR '',''"
  shows "list_all (\<lambda>x. blanks (fst x)) items \<Longrightarrow> tr \<le> 1 \<Longrightarrow>
         remaining p = concat (map (\<lambda>y. CHR '','' # padded pr y) items)
                        @ replicate tr (CHR '','') @ e # rest \<Longrightarrow>
         \<exists>q. SepBy1_loop adv rd (CHR '','') e acc p = Some (Some (acc @ map snd items), q)
              \<and> remaining q = e # rest"
proof (induction items arbitrary: p acc)
  case Nil
  let ?p1 = "snd (SkipWhitespaceAndNewline adv False p)"
  show ?case
  proof (cases "tr = 0")
    case True
    with Nil.prems have "remaining p = e # rest" by simp
    with e have r1: "remaining ?p1 = e # rest"
      by (simp add: skip_remaining delim_not_blank)
    then have "LookChar1 ?p1 = Some e" by (rule LookChar1_Cons)
    with e r1 show ?thesis
      by (subst SepBy1_loop.simps) (simp add: Let_def)
  next
    case False
    with Nil.prems have "tr = 1" by simp
    with Nil.prems have "remaining p = CHR '','' # e # rest" by simp
    then have r1: "remaining ?p1 = CHR '','' # e # rest"
      by (simp add: skip_remaining is_blank_def is_space_def is_newline_def)
    then have l1: "LookChar1 ?p1 = Some (CHR '','')" by (rule LookChar1_Cons)
    let ?p2 = "snd (Char1 adv ?p1)"
    let ?p3 = "snd (SkipWhitespaceAndNewline adv False ?p2)"
    from r1 have "remaining ?p2 = e # rest" by (simp add: Char1_remaining)
    with e have r3: "remaining ?p3 = e # rest"
      by (simp add: skip_remaining delim_not_blank)
    then have "LookChar1 ?p3 = Some e" by (rule LookChar1_Cons)
    with l1 r3 show ?thesis
      by (subst SepBy1_loop.simps) (simp add: Let_def)
  qed
next
  case (Cons x xs)
  obtain w v where x: "x = (w, v)" by (cases x)
  from bd have pv: "pr v \<noteq> []" "\<not> is_blank False (hd (pr v))" "\<not> is_delim (hd (pr v))"
    by (simp_all add: bare_decoder_def)
  then obtain h t where ht: "pr v = h # t" by (cases "pr v") simp_all
  from Cons.prems x have bw: "blanks w" and bxs: "list_all (\<lambda>x. blanks (fst x)) xs" by simp_all
  obtain c r where cr: "concat (map (\<lambda>y. CHR '','' # padded pr y) xs)
                          @ replicate tr (CHR '','') @ e # rest = c # r" "is_delim c"
    using tail_delim [OF e(1)] by blast
  let ?p1 = "snd (SkipWhitespaceAndNewline adv False p)"
  let ?p2 = "snd (Char1 adv ?p1)"
  let ?p3 = "snd (SkipWhitespaceAndNewline adv False ?p2)"
  from Cons.prems x cr have rp: "remaining p = CHR '','' # w @ pr v @ c # r"
    by (simp add: padded_def)
  then have r1: "remaining ?p1 = CHR '','' # w @ pr v @ c # r"
    by (simp add: skip_remaining is_blank_def is_space_def is_newline_def)
  then have l1: "LookChar1 ?p1 = Some (CHR '','')" by (rule LookChar1_Cons)
  from r1 have r2: "remaining ?p2 = w @ h # t @ c # r" by (simp add: Char1_remaining ht)
  from pv ht have nb: "\<not> is_blank False h" by simp
  have r3: "remaining ?p3 = pr v @ c # r"
    by (simp add: skip_remaining r2 dropWhile_blanks [OF bw nb] ht)
  then have "LookChar1 ?p3 = Some h" by (simp add: ht LookChar1_Cons)
  moreover from pv ht e have "h \<noteq> e" by auto
  ultimately have l3: "LookChar1 ?p3 \<noteq> Some e" by simp
  from bd r3 cr(2) have rd: "fst (rd ?p3) = Some v" "remaining (snd (rd ?p3)) = c # r"
    unfolding bare_decoder_def by blast+
  then have rd': "rd ?p3 = (Some v, snd (rd ?p3))" by (metis prod.collapse)
  from rd(2) cr(1) have "remaining (snd (rd ?p3)) = concat (map (\<lambda>y. CHR '','' # padded pr y) xs)
                          @ replicate tr (CHR '','') @ e # rest" by simp
  from Cons.IH [OF bxs Cons.prems(2) this, of "acc @ [v]"] obtain q where
    q: "SepBy1_loop adv rd (CHR '','') e (acc @ [v]) (snd (rd ?p3))
          = Some (Some ((acc @ [v]) @ map snd xs), q)" "remaining q = e # rest"
    by blast
  have "SepBy1_loop adv rd (CHR '','') e acc p = Some (Some ((acc @ [v]) @ map snd xs), q)"
    apply (subst SepBy1_loop.simps)
    apply (simp only: Let_def l1 l3 refl not_True_eq_False not_False_eq_True if_False if_True)
    apply (subst rd')
    apply (simp only: prod.case option.case q(1))
    done
  with q(2) x show ?case by simp
qed

lemma loop_fail:
  assumes bd: "bare_decoder rd pr" and e: "is_delim e" "e \<noteq> CHR '',''"
  shows "list_all (\<lambda>x. blanks (fst x)) items \<Longrightarrow> 2 \<le> tr \<Longrightarrow>
         remaining p = concat (map (\<lambda>y. CHR '','' # padded pr y) items)
                        @ replicate tr (CHR '','') @ e # rest \<Longrightarrow>
         \<exists>q. SepBy1_loop adv rd (CHR '','') e acc p = Some (None, q)"
proof (induction items arbitrary: p acc)
  case Nil
  let ?p1 = "snd (SkipWhitespaceAndNewline adv False p)"
  let ?p2 = "snd (Char1 adv ?p1)"
  let ?p3 = "snd (SkipWhitespaceAndNewline adv False ?p2)"
  from Nil.prems obtain k where k: "tr = Suc (Suc k)"
    by (metis One_nat_def Suc_1 Suc_le_D Suc_le_mono)
  define r where "r = replicate k (CHR '','') @ e # rest"
  from Nil.prems k have "remaining p = CHR '','' # CHR '','' # r" by (simp add: r_def)
  then have r1: "remaining ?p1 = CHR '','' # CHR '','' # r"
    by (simp add: skip_remaining is_blank_def is_space_def is_newline_def)
  then have l1: "LookChar1 ?p1 = Some (CHR '','')" by (rule LookChar1_Cons)
  from r1 have "remaining ?p2 = CHR '','' # r" by (simp add: Char1_remaining)
  then have r3: "remaining ?p3 = CHR '','' # r"
    by (simp add: skip_remaining is_blank_def is_space_def is_newline_def)
  then have "LookChar1 ?p3 = Some (CHR '','')" by (rule LookChar1_Cons)
  with e have l3: "LookChar1 ?p3 \<noteq> Some e" by simp
  from bd r3 have "fst (rd ?p3) = None"
    unfolding bare_decoder_def is_delim_def by blast
  then have rd': "rd ?p3 = (None, snd (rd ?p3))" by (metis prod.collapse)
  have "SepBy1_loop adv rd (CHR '','') e acc p = Some (None, snd (rd ?p3))"
    apply (subst SepBy1_loop.simps)
    apply (simp only: Let_def l1 l3 refl not_True_eq_False not_False_eq_True if_False if_True)
    apply (subst rd')
    apply (simp only: prod.case option.case)
    done
  then show ?case by blast
next
  case (Cons x xs)
  obtain w v where x: "x = (w, v)" by (cases x)
  from bd have pv: "pr v \<noteq> []" "\<not> is_blank False (hd (pr v))" "\<not> is_delim (hd (pr v))"
    by (simp_all add: bare_decoder_def)
  then obtain h t where ht: "pr v = h # t" by (cases "pr v") simp_all
  from Cons.prems x have bw: "blanks w" and bxs: "list_all (\<lambda>x. blanks (fst x)) xs" by simp_all
  obtain c r where cr: "concat (map (\<lambda>y. CHR '','' # padded pr y) xs)
                          @ replicate tr (CHR '','') @ e # rest = c # r" "is_delim c"
    using tail_delim [OF e(1)] by blast
  let ?p1 = "snd (SkipWhitespaceAndNewline adv False p)"
  let ?p2 = "snd (Char1 adv ?p1)"
  let ?p3 = "snd (SkipWhitespaceAndNewline adv False ?p2)"
  from Cons.prems x cr have rp: "remaining p = CHR '','' # w @ pr v @ c # r"
    by (simp add: padded_def)
  then have r1: "remaining ?p1 = CHR '','' # w @ pr v @ c # r"
    by (simp add: skip_remaining is_blank_def is_space_def is_newline_def)
  then have l1: "LookChar1 ?p1 = Some (CHR '','')" by (rule LookChar1_Cons)
  from r1 have r2: "remaining ?p2 = w @ h # t @ c # r" by (simp add: Char1_remaining ht)
  from pv ht have nb: "\<not> is_blank False h" by simp
  have r3: "remaining ?p3 = pr v @ c # r"
    by (simp add: skip_remaining r2 dropWhile_blanks [OF bw nb] ht)
  then have "LookChar1 ?p3 = Some h" by (simp add: ht LookChar1_Cons)
  moreover from pv ht e have "h \<noteq> e" by auto
  ultimately have l3: "LookChar1 ?p3 \<noteq> Some e" by simp
  from bd r3 cr(2) have rd: "fst (rd ?p3) = Some v" "remaining (snd (rd ?p3)) = c # r"
    unfolding bare_decoder_def by blast+
  then have rd': "rd ?p3 = (Some v, snd (rd ?p3))" by (metis prod.collapse)
  from rd(2) cr(1) have "remaining (snd (rd ?p3)) = concat (map (\<lambda>y. CHR '','' # padded pr y) xs)
                          @ replicate tr (CHR '','') @ e # rest" by simp
  from Cons.IH [OF bxs Cons.prems(2) this, of "acc @ [v]"] obtain q where
    q: "SepBy1_loop adv rd (CHR '','') e (acc @ [v]) (snd (rd ?p3)) = Some (None, q)"
    by blast
  have "SepBy1_loop adv rd (CHR '','') e acc p = Some (None, q)"
    apply (subst SepBy1_loop.simps)
    apply (simp only: Let_def l1 l3 refl not_True_eq_False not_False_eq_True if_False if_True)
    apply (subst rd')
    apply (simp only: prod.case option.case q(1))
    done
  then show ?case by blast
qed

lemma SepBy1_text:
  assumes bd: "bare_decoder rd pr" and e: "is_delim e" "e \<noteq> CHR '',''"
    and bl: "list_all (\<lambda>x. blanks (fst x)) items"
    and rp: "remaining p = sep_text pr items @ replicate tr (CHR '','') @ e # rest"
  shows "\<exists>q. SepBy1BasicType adv rd (CHR '','') e p
               = Some (if items \<noteq> [] \<and> tr \<le> 1 then Some (map snd items) else None, q)
             \<and> (items \<noteq> [] \<and> tr \<le> 1 \<longrightarrow> remaining q = e # rest)"
proof (cases items)
  case Nil
  let ?p1 = "snd (SkipWhitespaceAndNewline adv False p)"
  from e(1) obtain c r where cr: "replicate tr (CHR '','') @ e # rest = c # r" "is_delim c"
    by (cases tr) (simp_all add: is_delim_def)
  with rp Nil have "remaining ?p1 = c # r"
    by (simp add: skip_remaining delim_not_blank)
  with bd cr(2) have "fst (rd ?p1) = None"
    unfolding bare_decoder_def by blast
  then obtain q0 where "rd ?p1 = (None, q0)" by (cases "rd ?p1") simp
  then have "\<exists>q. SepBy1BasicType adv rd (CHR '','') e p = Some (None, q)"
    by (simp add: SepBy1BasicType_def Let_def)
  with Nil show ?thesis by simp
next
  case (Cons x xs)
  obtain w v where x: "x = (w, v)" by (cases x)
  from bd have pv: "pr v \<noteq> []" "\<not> is_blank False (hd (pr v))"
    by (simp_all add: bare_decoder_def)
  then obtain h t where ht: "pr v = h # t" by (cases "pr v") simp_all
  from bl Cons x have bw: "blanks w" and bxs: "list_all (\<lambda>x. blanks (fst x)) xs" by simp_all
  obtain c r where cr: "concat (map (\<lambda>y. CHR '','' # padded pr y) xs)
                          @ replicate tr (CHR '','') @ e # rest = c # r" "is_delim c"
    using tail_delim [OF e(1)] by blast
  let ?p1 = "snd (SkipWhitespaceAndNewline adv False p)"
  from rp Cons x cr have "remaining p = w @ h # t @ c # r"
    by (simp add: sep_text_Cons padded_def ht)
  moreover from pv ht have nb: "\<not> is_blank False h" by simp
  ultimately have r1: "remaining ?p1 = pr v @ c # r"
    by (simp add: skip_remaining dropWhile_blanks [OF bw nb] ht)
  from bd r1 cr(2) have rd: "fst (rd ?p1) = Some v" "remaining (snd (rd ?p1)) = c # r"
    unfolding bare_decoder_def by blast+
  then have rd': "rd ?p1 = (Some v, snd (rd ?p1))" by (metis prod.collapse)
  from rd(2) cr(1) have rr: "remaining (snd (rd ?p1)) = concat (map (\<lambda>y. CHR '','' # padded pr y) xs)
                          @ replicate tr (CHR '','') @ e # rest" by simp
  have unf: "SepBy1BasicType adv rd (CHR '','') e p
               = SepBy1_loop adv rd (CHR '','') e [v] (snd (rd ?p1))"
    unfolding SepBy1BasicType_def Let_def
    by (subst rd') (simp only: prod.case option.case)
  show ?thesis
  proof (cases "tr \<le> 1")
    case True
    from loop_ok [OF bd e bxs True rr, of adv "[v]"] True Cons x unf show ?thesis by simp
  next
    case False
    then have "2 \<le> tr" by simp
    from loop_fail [OF bd e bxs this rr, of adv "[v]"] False Cons x unf show ?thesis by simp
  qed
qed

lemma SepBy1_skip:
  "SepBy1BasicType adv rd s e (snd (SkipWhitespaceAndNewline adv False p))
     = SepBy1BasicType adv rd s e p"
  by (simp add: SepBy1BasicType_def Let_def skip_idem)

lemma is_delim_simps:
  "is_delim (CHR '')'')" "is_delim (CHR '']'')" "is_delim (CHR '','')"
  "\<not> is_space (CHR ''('')" "\<not> is_space (CHR ''['')" "\<not> is_space (CHR '')'')" "\<not> is_space (CHR '']'')"
  by (simp_all add: is_delim_def is_space_def)

lemma array_empty:
  assumes "remaining p = ''[]'' @ rest"
  shows "\<exists>q. ParseBasicTypeArray adv rd p = Some (Some [], q) \<and> remaining q = rest"
proof -
  obtain p1 where p1: "Expect adv (CHR ''['') p = (True, p1)" "remaining p1 = CHR '']'' # rest"
    using Expect_ok [of p "CHR ''[''" _ adv] assms
    by (cases "Expect adv (CHR ''['') p") (simp add: is_delim_simps)
  let ?p2 = "snd (SkipWhitespaceAndNewline adv False p1)"
  from p1(2) have r2: "remaining ?p2 = CHR '']'' # rest"
    by (simp add: skip_remaining delim_not_blank is_delim_simps)
  then have "LookChar1 ?p2 = Some (CHR '']'')" by (rule LookChar1_Cons)
  with p1(1) r2 show ?thesis
    by (simp add: ParseBasicTypeArray_def Let_def Char1_remaining)
qed

lemma array_text:
  assumes bd: "bare_decoder rd pr"
    and bl: "list_all (\<lambda>x. blanks (fst x)) items"
    and ne: "items \<noteq> []"
    and rp: "remaining p = list_text (CHR ''['') (CHR '']'') pr items tr @ rest"
  shows "\<exists>q. ParseBasicTypeArray adv rd p
               = Some (if tr \<le> 1 then Some (map snd items) else None, q)
             \<and> (tr \<le> 1 \<longrightarrow> remaining q = rest)"
proof -
  let ?e = "CHR '']''"
  obtain p1 where p1: "Expect adv (CHR ''['') p = (True, p1)"
      "remaining p1 = sep_text pr items @ replicate tr (CHR '','') @ ?e # rest"
    using Expect_ok [of p "CHR ''[''" _ adv] rp
    by (cases "Expect adv (CHR ''['') p") (simp add: list_text_def is_delim_simps)
  let ?p2 = "snd (SkipWhitespaceAndNewline adv False p1)"
  from ne obtain w v xs where items: "items = (w, v) # xs" by (cases items) auto
  from bd have pv: "pr v \<noteq> []" "\<not> is_blank False (hd (pr v))" "\<not> is_delim (hd (pr v))"
    by (simp_all add: bare_decoder_def)
  then obtain h t where ht: "pr v = h # t" by (cases "pr v") simp_all
  from bl items have bw: "blanks w" by simp
  from pv ht have nb: "\<not> is_blank False h" by simp
  from p1(2) items have "remaining p1 = w @ h # (t @ concat (map (\<lambda>y. CHR '','' # padded pr y) xs)
                          @ replicate tr (CHR '','') @ ?e # rest)"
    by (simp add: sep_text_Cons padded_def ht)
  then have "remaining ?p2 = h # (t @ concat (map (\<lambda>y. CHR '','' # padded pr y) xs)
                          @ replicate tr (CHR '','') @ ?e # rest)"
    by (simp only: skip_remaining dropWhile_blanks [OF bw nb])
  then have "LookChar1 ?p2 = Some h" by (rule LookChar1_Cons)
  moreover from pv ht have "h \<noteq> ?e" by (auto simp: is_delim_simps)
  ultimately have l2: "LookChar1 ?p2 \<noteq> Some ?e" by simp
  from SepBy1_text [OF bd _ _ bl p1(2), of adv] ne obtain q where
    q: "SepBy1BasicType adv rd (CHR '','') ?e p1
          = Some (if tr \<le> 1 then Some (map snd items) else None, q)"
       "tr \<le> 1 \<longrightarrow> remaining q = ?e # rest"
    by (auto simp: is_delim_simps)
  have unf: "ParseBasicTypeArray adv rd p =
      (case SepBy1BasicType adv rd (CHR '','') ?e p1 of
               None \<Rightarrow> None
             | Some (None, p3) \<Rightarrow> Some (None, p3)
             | Some (Some vs, p3) \<Rightarrow>
                 (case Expect adv ?e p3 of
                    (False, p4) \<Rightarrow> Some (None, p4)
                  | (True, p4) \<Rightarrow> Some (Some vs, p4)))"
    using l2 by (simp add: ParseBasicTypeArray_def p1(1) Let_def SepBy1_skip)
  show ?thesis
  proof (cases "tr \<le> 1")
    case False
    with q(1) unf show ?thesis by simp
  next
    case True
    with q(2) have "remaining q = ?e # rest" by simp
    from Expect_ok [OF this, of adv] obtain p3 where
      p3: "Expect adv ?e q = (True, p3)" "remaining p3 = rest"
      by (cases "Expect adv ?e q") (simp add: is_delim_simps)
    with q(1) True unf show ?thesis by simp
  qed
qed

section \<open>The decoder of 32-bit integers\<close>

lemma digit_char: "n < 10 \<Longrightarrow> is_digit (char_of (48 + n)) \<and> (of_char (char_of (48 + n)) :: nat) - 48 = n"
  by (simp add: is_digit_def)

lemma show_nat_digits: "list_all is_digit (show_nat n) \<and> show_nat n \<noteq> []"
proof (induction n rule: show_nat.induct)
  case (1 n)
  show ?case
  proof (cases "n < 10")
    case True
    then show ?thesis by (subst (1 2) show_nat.simps) (simp add: digit_char)
  next
    case False
    with 1 have "list_all is_digit (show_nat (n div 10))" by simp
    moreover have "is_digit (char_of (48 + n mod 10))" by (simp add: digit_char)
    ultimately show ?thesis using False by (subst (1 2) show_nat.simps) simp
  qed
qed

lemma dec_val_snoc: "dec_val (ds @ [c]) = 10 * dec_val ds + ((of_char c :: nat) - 48)"
  by (simp add: dec_val_def)

lemma dec_val_show_nat: "dec_val (show_nat n) = n"
proof (induction n rule: show_nat.induct)
  case (1 n)
  show ?case
  proof (cases "n < 10")
    case True
    then show ?thesis
      by (subst show_nat.simps) (simp add: dec_val_def digit_char)
  next
    case False
    with 1 have "dec_val (show_nat (n div 10)) = n div 10" by simp
    moreover have "(of_char (char_of (48 + n mod 10)) :: nat) - 48 = n mod 10"
      by (simp add: digit_char)
    ultimately show ?thesis using False
      by (subst show_nat.simps) (simp add: dec_val_snoc)
  qed
qed

lemma delim_not_digit: "is_delim c \<Longrightarrow> \<not> is_digit c"
  by (auto simp: is_delim_def is_digit_def)

lemma digit_not_special:
  "is_digit c \<Longrightarrow> \<not> is_delim c \<and> \<not> is_blank False c \<and> c \<noteq> CHR ''-''"
  by (auto simp: is_delim_def is_digit_def is_blank_def is_space_def is_newline_def)

lemma takeWhile_digits:
  "is_delim c \<Longrightarrow> takeWhile is_digit (show_nat n @ c # rest) = show_nat n"
  using show_nat_digits [of n]
  by (simp add: takeWhile_append2 list_all_iff delim_not_digit)

lemma hd_show_nat: "is_digit (hd (show_nat n))"
  using show_nat_digits [of n] by (cases "show_nat n") simp_all

lemma show_int32_head:
  "show_int32 v \<noteq> [] \<and> \<not> is_blank False (hd (show_int32 v)) \<and> \<not> is_delim (hd (show_int32 v))"
proof (cases "sint v < 0")
  case True
  then show ?thesis
    by (simp add: show_int32_def show_int_def is_blank_def is_space_def is_newline_def is_delim_def)
next
  case False
  with show_nat_digits [of "nat (sint v)"] hd_show_nat [of "nat (sint v)"] show ?thesis
    by (simp add: show_int32_def show_int_def digit_not_special)
qed

lemma sint32_range: "- (2 ^ 31) \<le> sint (v :: 32 word) \<and> sint v < 2 ^ 31"
  using sint_ge [of v] sint_lt [of v] by simp

lemma int32_roundtrip:
  assumes rp: "remaining p = show_int32 v @ c # rest" and c: "is_delim c"
  shows "fst (ReadBasicType_int32 adv p) = Some v
         \<and> remaining (snd (ReadBasicType_int32 adv p)) = c # rest"
proof (cases "sint v < 0")
  case True
  define m where "m = nat (- sint v)"
  from True rp have rtx: "remaining p = CHR ''-'' # show_nat m @ c # rest"
    by (simp add: show_int32_def show_int_def m_def)
  have ds: "takeWhile is_digit (show_nat m @ c # rest) = show_nat m"
    by (rule takeWhile_digits [OF c])
  from True have n: "- int (dec_val (show_nat m)) = sint v"
    by (simp add: dec_val_show_nat m_def)
  have ne: "show_nat m \<noteq> []" using show_nat_digits [of m] by simp
  have w: "word_of_int (sint v) = v" by simp
  from sint32_range [of v] have rg: "\<not> (sint v < - (2 ^ 31) \<or> 2 ^ 31 \<le> sint v)" by simp
  show ?thesis
    using rg ne
    by (simp add: ReadBasicType_int32_def Let_def rtx ds n consume_remaining)
next
  case False
  define m where "m = nat (sint v)"
  from False rp have rtx: "remaining p = show_nat m @ c # rest"
    by (simp add: show_int32_def show_int_def m_def)
  have ne: "show_nat m \<noteq> []" using show_nat_digits [of m] by simp
  from hd_show_nat [of m] have "hd (show_nat m) \<noteq> CHR ''-''"
    by (simp add: digit_not_special)
  with ne have neg: "\<not> (remaining p \<noteq> [] \<and> hd (remaining p) = CHR ''-'')"
    by (simp add: rtx)
  have ds: "takeWhile is_digit (remaining p) = show_nat m"
    unfolding rtx by (rule takeWhile_digits [OF c])
  from False have n: "int (dec_val (show_nat m)) = sint v"
    by (simp add: dec_val_show_nat m_def)
  from sint32_range [of v] have rg: "\<not> (sint v < - (2 ^ 31) \<or> 2 ^ 31 \<le> sint v)" by simp
  show ?thesis
    using rg ne neg
    by (simp add: ReadBasicType_int32_def Let_def ds n consume_remaining) (simp add: rtx)
qed

lemma int32_reject:
  assumes "remaining p = c # rest" and "is_delim c"
  shows "fst (ReadBasicType_int32 adv p) = None"
proof -
  from assms have "c \<noteq> CHR ''-''" by (auto simp: is_delim_def)
  with assms show ?thesis
    by (simp add: ReadBasicType_int32_def Let_def delim_not_digit)
qed

lemma int32_bare_decoder: "bare_decoder (ReadBasicType_int32 adv) show_int32"
  unfolding bare_decoder_def
  using show_int32_head int32_roundtrip int32_reject by blast

lemma show_small:
  "show_int32 1 = ''1''" "show_int32 2 = ''2''" "show_int32 3 = ''3''"
  by code_simp+

lemma array_123:
  "list_text (CHR ''['') (CHR '']'') show_int32 [([], 1), ('' '', 2), ('' '', 3)] 1 = ''[1, 2, 3,]''"
  "list_text (CHR ''['') (CHR '']'') show_int32 [([], 1), ('' '', 2), ('' '', 3)] 0 = ''[1, 2, 3]''"
  by (simp_all add: list_text_def padded_def show_small)

section \<open>Tuples: the parser and the form of the text\<close>







lemma no_lead_Cons: "no_lead P (c # cs) = (\<not> P c)"
  by (simp add: no_lead_def)

















section \<open>Properties of the typed-value decoder\<close>

text \<open>
  C1: for every element type (every bare decoder \<open>rd\<close>), the optional form on input that
  begins with the keyword \<open>None\<close> returns success with the optional left empty, consumes
  the four characters of the keyword and nothing beyond them, and pushes no diagnostic.
\<close>

theorem optional_none_blocked:
  assumes "remaining p = ''None'' @ rest"
  shows "\<exists>p'. ReadBasicType_optional adv rd p = (Some None, p') \<and> remaining p' = rest
        \<and> idx (sr p') = idx (sr p) + 4 \<and> binary (sr p') = binary (sr p)
        \<and> err_stack p' = err_stack p \<and> warn_stack p' = warn_stack p"
proof -
  have len: "length ''None'' = 4" by simp
  from CharN_prefix [OF assms, of adv, unfolded len] obtain p' where
    p': "CharN adv 4 p = (Some ''None'', p')" "remaining p' = rest"
        "idx (sr p') = idx (sr p) + 4" "binary (sr p') = binary (sr p)"
        "err_stack p' = err_stack p" "warn_stack p' = warn_stack p"
    by blast
  from p'(1) have "MaybeNone adv p = (True, p')"
    by (simp only: MaybeNone_def Let_def prod.case option.case refl if_True)
  with p' show ?thesis
    by (simp add: ReadBasicType_optional_def)
qed


theorem optional_none_blocked_witness:
  "\<exists>p'. ReadBasicType_optional (\<lambda>c k. k) (ReadBasicType_int32 (\<lambda>c k. k))
            (AsciiParser_init ''None, 1'') = (Some None, p')
        \<and> remaining p' = '', 1'' \<and> idx (sr p') = 4 \<and> err_stack p' = []"
proof -
  have h: "remaining (AsciiParser_init ''None, 1'') = ''None'' @ '', 1''"
    by (simp add: remaining_def AsciiParser_init_def)
  have z: "idx (sr (AsciiParser_init ''None, 1'')) = 0" "err_stack (AsciiParser_init ''None, 1'') = []"
    by (simp_all add: AsciiParser_init_def)
  from optional_none_blocked [OF h, of "\<lambda>c k. k" "ReadBasicType_int32 (\<lambda>c k. k)"] obtain p' where
    "ReadBasicType_optional (\<lambda>c k. k) (ReadBasicType_int32 (\<lambda>c k. k))
       (AsciiParser_init ''None, 1'') = (Some None, p')"
    "remaining p' = '', 1''" "idx (sr p') = idx (sr (AsciiParser_init ''None, 1'')) + 4"
    "err_stack p' = err_stack (AsciiParser_init ''None, 1'')"
    by blast
  with z show ?thesis by simp
qed




text \<open>
  C3: for every element type, ParseBasicTypeArray succeeds on the empty array literal with
  the empty vector, and on the text of a bracketed list it yields the same elements with
  one trailing comma before the closing bracket as with none; decoded as integer arrays,
  \<open>[1, 2, 3,]\<close> and \<open>[1, 2, 3]\<close> both yield the three elements 1, 2, 3.
\<close>

theorem array_trailing_comma:
  "(remaining p0 = ''[]'' @ rest0 \<longrightarrow>
      (\<exists>q. ParseBasicTypeArray adv rd0 p0 = Some (Some [], q) \<and> remaining q = rest0))
   \<and> (bare_decoder rd pr \<and> list_all (\<lambda>x. blanks (fst x)) items \<and> items \<noteq> [] \<and> tr \<le> 1
        \<and> remaining p = list_text (CHR ''['') (CHR '']'') pr items tr @ rest \<longrightarrow>
      (\<exists>q. ParseBasicTypeArray adv rd p = Some (Some (map snd items), q) \<and> remaining q = rest))
   \<and> (remaining p1 = ''[1, 2, 3,]'' @ rest1 \<and> remaining p2 = ''[1, 2, 3]'' @ rest2 \<longrightarrow>
      (\<exists>q1 q2. ParseBasicTypeArray adv (ReadBasicType_int32 adv) p1 = Some (Some [1, 2, 3], q1)
         \<and> ParseBasicTypeArray adv (ReadBasicType_int32 adv) p2 = Some (Some [1, 2, 3], q2)
         \<and> remaining q1 = rest1 \<and> remaining q2 = rest2))"
proof (intro conjI impI)
  assume "remaining p0 = ''[]'' @ rest0"
  then show "\<exists>q. ParseBasicTypeArray adv rd0 p0 = Some (Some [], q) \<and> remaining q = rest0"
    by (rule array_empty)
next
  assume a: "bare_decoder rd pr \<and> list_all (\<lambda>x. blanks (fst x)) items \<and> items \<noteq> [] \<and> tr \<le> 1
        \<and> remaining p = list_text (CHR ''['') (CHR '']'') pr items tr @ rest"
  then have "bare_decoder rd pr" "list_all (\<lambda>x. blanks (fst x)) items" "items \<noteq> []"
    "remaining p = list_text (CHR ''['') (CHR '']'') pr items tr @ rest" and tr: "tr \<le> 1"
    by simp_all
  from array_text [OF this(1-4), of adv] tr
  show "\<exists>q. ParseBasicTypeArray adv rd p = Some (Some (map snd items), q) \<and> remaining q = rest"
    by simp
next
  let ?items = "[([], 1), ('' '', 2), ('' '', 3)] :: (string \<times> int32_t) list"
  assume a: "remaining p1 = ''[1, 2, 3,]'' @ rest1 \<and> remaining p2 = ''[1, 2, 3]'' @ rest2"
  have bd: "bare_decoder (ReadBasicType_int32 adv) show_int32"
    by (rule int32_bare_decoder)
  have bl: "list_all (\<lambda>x. blanks (fst x)) ?items"
    by (simp add: blanks_def is_blank_def is_space_def)
  have ne: "?items \<noteq> []" by simp
  from a have t1: "remaining p1 = list_text (CHR ''['') (CHR '']'') show_int32 ?items 1 @ rest1"
    and t2: "remaining p2 = list_text (CHR ''['') (CHR '']'') show_int32 ?items 0 @ rest2"
    by (simp_all only: array_123)
  from array_text [OF bd bl ne t1, of adv] array_text [OF bd bl ne t2, of adv]
  show "\<exists>q1 q2. ParseBasicTypeArray adv (ReadBasicType_int32 adv) p1 = Some (Some [1, 2, 3], q1)
         \<and> ParseBasicTypeArray adv (ReadBasicType_int32 adv) p2 = Some (Some [1, 2, 3], q2)
         \<and> remaining q1 = rest1 \<and> remaining q2 = rest2"
    by simp blast
qed

theorem array_trailing_comma_witness:
  "(\<exists>q. ParseBasicTypeArray (\<lambda>c k. k) (ReadBasicType_int32 (\<lambda>c k. k)) (AsciiParser_init ''[]'')
          = Some (Some [], q) \<and> remaining q = [])
   \<and> (\<exists>q. ParseBasicTypeArray (\<lambda>c k. k) (ReadBasicType_int32 (\<lambda>c k. k))
            (AsciiParser_init ''[-7,  8,]'') = Some (Some [- 7, 8], q) \<and> remaining q = [])
   \<and> (\<exists>q1 q2. ParseBasicTypeArray (\<lambda>c k. k) (ReadBasicType_int32 (\<lambda>c k. k))
                 (AsciiParser_init ''[1, 2, 3,]'') = Some (Some [1, 2, 3], q1)
         \<and> ParseBasicTypeArray (\<lambda>c k. k) (ReadBasicType_int32 (\<lambda>c k. k))
                 (AsciiParser_init ''[1, 2, 3]'') = Some (Some [1, 2, 3], q2)
         \<and> remaining q1 = [] \<and> remaining q2 = [])"
proof -
  let ?items = "[([], - 7), (''  '', 8)] :: (string \<times> int32_t) list"
  have h0: "remaining (AsciiParser_init ''[]'') = ''[]'' @ []"
    by (simp add: remaining_def AsciiParser_init_def)
  have bd: "bare_decoder (ReadBasicType_int32 (\<lambda>c k. k) :: (int32_t, unit) reader) show_int32"
    by (rule int32_bare_decoder)
  have s: "show_int32 (- 7) = ''-7''" "show_int32 8 = ''8''"
    by code_simp+
  have h1: "list_all (\<lambda>x. blanks (fst x)) ?items \<and> ?items \<noteq> [] \<and> (1::nat) \<le> 1
      \<and> remaining (AsciiParser_init ''[-7,  8,]'')
          = list_text (CHR ''['') (CHR '']'') show_int32 ?items 1 @ []"
    by (simp add: blanks_def is_blank_def is_space_def remaining_def AsciiParser_init_def
          list_text_def padded_def s)
  have h2: "remaining (AsciiParser_init ''[1, 2, 3,]'') = ''[1, 2, 3,]'' @ []
      \<and> remaining (AsciiParser_init ''[1, 2, 3]'') = ''[1, 2, 3]'' @ []"
    by (simp add: remaining_def AsciiParser_init_def)
  from array_trailing_comma [where ?p0.0 = "AsciiParser_init ''[]''" and ?rest0.0 = "[]"
      and adv = "\<lambda>c k. k" and ?rd0.0 = "ReadBasicType_int32 (\<lambda>c k. k)"
      and rd = "ReadBasicType_int32 (\<lambda>c k. k)" and pr = show_int32 and items = ?items
      and tr = 1 and p = "AsciiParser_init ''[-7,  8,]''" and rest = "[]"
      and ?p1.0 = "AsciiParser_init ''[1, 2, 3,]''" and ?rest1.0 = "[]"
      and ?p2.0 = "AsciiParser_init ''[1, 2, 3]''" and ?rest2.0 = "[]"]
    h0 bd h1 h2
  show ?thesis by simp
qed

section \<open>Checkpoint and restore round trip\<close>

text \<open>
  C4: from every stream state in order, saving a checkpoint, running any sequence of
  consuming operations and restoring the checkpoint (PopParserState, then SeekTo the saved
  offset) succeeds and gives back the stream as it was at save time, so that every
  sequence of reads after it returns the bytes it would have returned then.
\<close>

theorem checkpoint_restore_roundtrip:
  assumes "sr_ok p"
  shows "\<exists>p'. checkpoint_roundtrip adv ops p = Some p' \<and> sr p' = sr p
          \<and> parse_stack p' = parse_stack p
          \<and> (\<forall>ops'. fst (run_ops adv ops' p') = fst (run_ops adv ops' p))"
proof -
  from checkpoint_restores [OF assms, of adv ops] obtain p' where
    p': "checkpoint_roundtrip adv ops p = Some p'" "sr p' = sr p" "parse_stack p' = parse_stack p"
    by blast
  have "\<forall>ops'. fst (run_ops adv ops' p') = fst (run_ops adv ops' p)"
    by (intro allI) (rule run_ops_stream [OF p'(2)])
  with p' show ?thesis by simp
qed

theorem checkpoint_restore_roundtrip_witness:
  "sr_ok (AsciiParser_init ''abc def'')
   \<and> (\<exists>p'. checkpoint_roundtrip (\<lambda>c k. k) [OpChar1, OpCharN 2, OpSkipWhitespace]
             (AsciiParser_init ''abc def'') = Some p'
          \<and> sr p' = \<lparr>binary = ''abc def'', idx = 0\<rparr>
          \<and> fst (run_ops (\<lambda>c k. k) [OpCharN 3] p') = [Some ''abc''])"
proof -
  let ?p = "AsciiParser_init ''abc def''"
  have ok: "sr_ok ?p"
    by (simp add: sr_ok_def AsciiParser_init_def)
  have rd: "fst (run_ops (\<lambda>c k. k) [OpCharN 3] ?p) = [Some ''abc'']"
    by code_simp
  have s: "sr ?p = \<lparr>binary = ''abc def'', idx = 0\<rparr>"
    by (simp add: AsciiParser_init_def)
  from checkpoint_restore_roundtrip [OF ok, of "\<lambda>c k. k" "[OpChar1, OpCharN 2, OpSkipWhitespace]"]
  obtain p' where p': "checkpoint_roundtrip (\<lambda>c k. k) [OpChar1, OpCharN 2, OpSkipWhitespace] ?p = Some p'
      \<and> sr p' = sr ?p \<and> parse_stack p' = parse_stack ?p
      \<and> (\<forall>ops'. fst (run_ops (\<lambda>c k. k) ops' p') = fst (run_ops (\<lambda>c k. k) ops' ?p))" ..
  have a: "checkpoint_roundtrip (\<lambda>c k. k) [OpChar1, OpCharN 2, OpSkipWhitespace] ?p = Some p'"
    using p' by (rule conjunct1)
  have b: "sr p' = sr ?p"
    using p' by (rule conjunct2 [THEN conjunct1])
  have c: "fst (run_ops (\<lambda>c k. k) [OpCharN 3] p') = fst (run_ops (\<lambda>c k. k) [OpCharN 3] ?p)"
    using p' by (rule conjunct2 [THEN conjunct2, THEN conjunct2, THEN spec])
  have b': "sr p' = \<lparr>binary = ''abc def'', idx = 0\<rparr>"
    using b s by (rule trans)
  have c': "fst (run_ops (\<lambda>c k. k) [OpCharN 3] p') = [Some ''abc'']"
    using c rd by (rule trans)
  from a b' c' have "checkpoint_roundtrip (\<lambda>c k. k) [OpChar1, OpCharN 2, OpSkipWhitespace] ?p = Some p'
          \<and> sr p' = \<lparr>binary = ''abc def'', idx = 0\<rparr>
          \<and> fst (run_ops (\<lambda>c k. k) [OpCharN 3] p') = [Some ''abc'']"
    by (intro conjI)
  then have "\<exists>p'. checkpoint_roundtrip (\<lambda>c k. k) [OpChar1, OpCharN 2, OpSkipWhitespace] ?p = Some p'
          \<and> sr p' = \<lparr>binary = ''abc def'', idx = 0\<rparr>
          \<and> fst (run_ops (\<lambda>c k. k) [OpCharN 3] p') = [Some ''abc'']"
    by (rule exI [of _ p'])
  with ok show ?thesis by (rule conjI)
qed

end
